theory Spec2Isabelle
  imports Main
begin

section \<open>The guard \<open>cress::Defer\<close>\<close>

text \<open>
  The header \<^verbatim>\<open>include/cress/defer.hpp\<close> declares one class template,
  \<^verbatim>\<open>template<class Callable> struct Defer\<close>, with a single private member
  \<^verbatim>\<open>Callable m_callable\<close>, two constructors and a destructor:
  \<^verbatim>\<open>
    ~Defer() noexcept { m_callable(); }
    Defer() : m_callable() {}
    explicit Defer(Callable callable) : m_callable(std::move(callable)) {}
  \<close>
  A callable is embedded by what calling it does: from the program state \<open>'s\<close> it
  produces a new state and either returns (nothing, for a \<^verbatim>\<open>void\<close> call operator,
  or a value of type \<open>'r\<close>) or throws an exception of type \<open>'e\<close>.
\<close>

datatype ('r, 'e) call_result = Returns_void | Returns_value 'r | Throws 'e

type_synonym ('s, 'r, 'e) callable = "'s \<Rightarrow> ('r, 'e) call_result \<times> 's"

record ('s, 'r, 'e) Defer =
  m_callable :: "('s, 'r, 'e) callable"

text \<open>
  \<^verbatim>\<open>Defer() : m_callable() {}\<close> value-initialises the member. What that value is
  depends on the template argument \<^verbatim>\<open>Callable\<close>, which the header does not fix, so
  the value-initialised callable is a parameter of the embedding.
\<close>

definition Defer_default :: "('s, 'r, 'e) callable \<Rightarrow> ('s, 'r, 'e) Defer" where
  "Defer_default value_initialized = \<lparr>m_callable = value_initialized\<rparr>"

text \<open>
  \<^verbatim>\<open>explicit Defer(Callable callable) : m_callable(std::move(callable)) {}\<close> stores
  the given callable.
\<close>

definition Defer_ctor :: "('s, 'r, 'e) callable \<Rightarrow> ('s, 'r, 'e) Defer" where
  "Defer_ctor callable = \<lparr>m_callable = callable\<rparr>"

text \<open>
  \<^verbatim>\<open>~Defer() noexcept { m_callable(); }\<close> calls the member with no argument, as an
  expression statement: a returned value is dropped. The destructor is \<^verbatim>\<open>noexcept\<close>,
  so an exception leaving the call ends the program through \<^verbatim>\<open>std::terminate\<close>.
\<close>

datatype dtor_exit = Completed | Std_terminate

definition Defer_dtor :: "('s, 'r, 'e) Defer \<Rightarrow> 's \<Rightarrow> dtor_exit \<times> 's" where
  "Defer_dtor d s =
     (case m_callable d s of
        (Throws e, s') \<Rightarrow> (Std_terminate, s')
      | (_, s') \<Rightarrow> (Completed, s'))"

section \<open>Scopes that hold guards\<close>

text \<open>
  The destructor is never called by the header itself: a guard is a local variable and C++
  destroys the local variables of a block, latest first, when control leaves the block,
  whether by reaching its end, by \<^verbatim>\<open>return\<close> or by an exception that unwinds the
  stack. The statements of a function body that matter here are:
  \<^item> \<open>Declare a\<close>: a guard declared with action \<open>a\<close>, as
    \<^verbatim>\<open>cress::Defer<decltype(f)> g(f);\<close> or through the macros
    \<^verbatim>\<open>CRESS_DEFER_BEGIN\<close>/\<^verbatim>\<open>CRESS_DEFER_END\<close>, \<^verbatim>\<open>CRESS_DEFER_BLOCK\<close>,
    \<^verbatim>\<open>CRESS_DEFER_CALLABLE_VARIABLE\<close> and \<^verbatim>\<open>CRESS_DEFER_BEGIN_CPP17\<close>, which all
    expand to such a declaration;
  \<^item> \<open>Declare_default v\<close>: \<^verbatim>\<open>cress::Defer<F> g;\<close>, where \<open>v\<close> is the
    value-initialised \<^verbatim>\<open>F\<close>;
  \<^item> \<open>Plain f\<close>: any statement that changes the state and completes normally;
  \<^item> \<open>Return\<close> and \<open>Throw e\<close>;
  \<^item> \<open>Block body\<close>: a nested block \<^verbatim>\<open>{ ... }\<close>;
  \<^item> \<open>Cond p thn els\<close>: \<^verbatim>\<open>if (p) { ... } else { ... }\<close>.
  Loops and \<^verbatim>\<open>try\<close> blocks are left out; an exception that leaves a block is taken
  to unwind it. A guard is always a named local variable of its block (as every macro of the
  header declares it), and its construction is taken to succeed: the header's constructors
  only value-initialise or move the callable.
\<close>

datatype ('s, 'r, 'e) stmt =
    Declare "('s, 'r, 'e) callable"
  | Declare_default "('s, 'r, 'e) callable"
  | Plain "'s \<Rightarrow> 's"
  | Return
  | Throw 'e
  | Block "('s, 'r, 'e) stmt list"
  | Cond "'s \<Rightarrow> bool" "('s, 'r, 'e) stmt list" "('s, 'r, 'e) stmt list"

text \<open>
  How control leaves a statement or a block. \<open>Terminated\<close> is the end of the program by
  \<^verbatim>\<open>std::terminate\<close>: nothing runs after it.
\<close>

datatype 'e completion = Normal | Returned | Raised 'e | Terminated

text \<open>
  Leaving a block destroys its guards, the one declared last first. The list of guards is
  kept with the latest declaration at its head.
\<close>

fun unwind :: "('s, 'r, 'e) Defer list \<Rightarrow> 'e completion \<Rightarrow> 's \<Rightarrow> 'e completion \<times> 's" where
  "unwind [] c s = (c, s)"
| "unwind (d # ds) c s =
     (case Defer_dtor d s of
        (Completed, s') \<Rightarrow> unwind ds c s'
      | (Std_terminate, s') \<Rightarrow> (Terminated, s'))"

definition leave_scope ::
  "('s, 'r, 'e) Defer list \<Rightarrow> 'e completion \<Rightarrow> 's \<Rightarrow> 'e completion \<times> 's" where
  "leave_scope ds c s = (case c of Terminated \<Rightarrow> (Terminated, s) | _ \<Rightarrow> unwind ds c s)"

text \<open>
  \<open>exec x gs s\<close> runs one statement in a block whose guards declared so far are \<open>gs\<close>;
  \<open>exec_stmts\<close> runs a statement list until one of them does not complete normally;
  \<open>exec_block\<close> runs a whole block and leaves it.
\<close>

fun exec :: "('s, 'r, 'e) stmt \<Rightarrow> ('s, 'r, 'e) Defer list \<Rightarrow> 's
               \<Rightarrow> 'e completion \<times> ('s, 'r, 'e) Defer list \<times> 's"
and exec_stmts :: "('s, 'r, 'e) stmt list \<Rightarrow> ('s, 'r, 'e) Defer list \<Rightarrow> 's
               \<Rightarrow> 'e completion \<times> ('s, 'r, 'e) Defer list \<times> 's"
and exec_block :: "('s, 'r, 'e) stmt list \<Rightarrow> 's \<Rightarrow> 'e completion \<times> 's"
where
  "exec (Declare a) gs s = (Normal, Defer_ctor a # gs, s)"
| "exec (Declare_default v) gs s = (Normal, Defer_default v # gs, s)"
| "exec (Plain f) gs s = (Normal, gs, f s)"
| "exec Return gs s = (Returned, gs, s)"
| "exec (Throw e) gs s = (Raised e, gs, s)"
| "exec (Block body) gs s = (case exec_block body s of (c, s') \<Rightarrow> (c, gs, s'))"
| "exec (Cond p thn els) gs s =
     (case (if p s then exec_block thn s else exec_block els s) of (c, s') \<Rightarrow> (c, gs, s'))"
| "exec_stmts [] gs s = (Normal, gs, s)"
| "exec_stmts (x # xs) gs s =
     (case exec x gs s of
        (Normal, gs', s') \<Rightarrow> exec_stmts xs gs' s'
      | (c, gs', s') \<Rightarrow> (c, gs', s'))"
| "exec_block body s = (case exec_stmts body [] s of (c, ds, s') \<Rightarrow> leave_scope ds c s')"

section \<open>Actions and statements used to observe a guard\<close>

text \<open>
  An action that appends its identifier to a shared sequence: the first component of the
  state is the sequence, the second is the rest of the program's state.
\<close>

definition append_id :: "nat \<Rightarrow> (nat list \<times> 'a, 'r, 'e) callable" where
  "append_id i = (\<lambda>(log, x). (Returns_void, (log @ [i], x)))"

text \<open>
  Sibling guards of one block, declared in the order given, each after the statements
  \<open>between\<close> it and the guard before it.
\<close>

definition siblings ::
  "((nat list \<times> 'a, 'r, 'e) stmt list \<times> nat) list \<Rightarrow> (nat list \<times> 'a, 'r, 'e) stmt list" where
  "siblings segs = concat (map (\<lambda>(between, i). between @ [Declare (append_id i)]) segs)"

text \<open>\<open>appends ds js\<close>: destroying the guards \<open>ds\<close> appends \<open>js\<close> to the sequence.\<close>

definition appends :: "(nat list \<times> 'a, 'r, 'e) Defer list \<Rightarrow> nat list \<Rightarrow> bool" where
  "appends ds js =
     (\<forall>(c :: 'e completion) s. c \<noteq> Terminated \<longrightarrow>
        (\<exists>s'. unwind ds c s = (c, s') \<and> fst s' = fst s @ js))"

text \<open>
  An action that counts its own invocations: the first component of the state is the
  counter, the second is the rest of the program's state.
\<close>

definition count_call :: "(nat \<times> 'a, 'r, 'e) callable" where
  "count_call = (\<lambda>(n, x). (Returns_void, (Suc n, x)))"

text \<open>
  An action that sets a flag. The state holds the flag together with the number of times it
  has been written, so that "set exactly once" can be told from "set twice".
\<close>

definition set_flag :: "((bool \<times> nat) \<times> 'a, 'r, 'e) callable" where
  "set_flag = (\<lambda>((b, n), x). (Returns_void, ((True, Suc n), x)))"

text \<open>An action that throws, and one that returns a value.\<close>

definition failing_action :: "(nat, 'r, string) callable" where
  "failing_action = (\<lambda>n. (Throws ''cleanup failed'', Suc n))"

definition answer :: "(nat, int, 'e) callable" where
  "answer = (\<lambda>n. (Returns_value 42, Suc n))"

text \<open>Statements that work on the rest of the state and leave the observed part alone.\<close>

definition side_work :: "nat list \<times> nat \<Rightarrow> nat list \<times> nat" where
  "side_work = (\<lambda>(log, x). (log, x + 10))"

definition other_work :: "nat \<times> nat \<Rightarrow> nat \<times> nat" where
  "other_work = (\<lambda>(n, x). (n, x + 10))"

definition deeper_work :: "(bool \<times> nat) \<times> nat \<Rightarrow> (bool \<times> nat) \<times> nat" where
  "deeper_work = (\<lambda>(f, x). (f, x + 10))"

text \<open>
  \<open>changes obs g a\<close>: the action \<open>a\<close> never throws, and each call turns the observed
  part \<open>obs s\<close> of the state into \<open>g (obs s)\<close>. \<open>keeps obs f\<close>: the statement \<open>f\<close>
  leaves the observed part as it is. A statement is a bystander for \<open>obs\<close> when neither it
  nor the guards it declares touch the observed part, and none of those guards' actions
  throws.
\<close>

definition changes :: "('s \<Rightarrow> 'v) \<Rightarrow> ('v \<Rightarrow> 'v) \<Rightarrow> ('s, 'r, 'e) callable \<Rightarrow> bool" where
  "changes obs g a =
     (\<forall>s. case a s of (Throws e, s') \<Rightarrow> False | (_, s') \<Rightarrow> obs s' = g (obs s))"

definition keeps :: "('s \<Rightarrow> 'v) \<Rightarrow> ('s \<Rightarrow> 's) \<Rightarrow> bool" where
  "keeps obs f = (\<forall>s. obs (f s) = obs s)"

fun bystander :: "('s \<Rightarrow> 'v) \<Rightarrow> ('s, 'r, 'e) stmt \<Rightarrow> bool" where
  "bystander obs (Declare a) = changes obs (\<lambda>v. v) a"
| "bystander obs (Declare_default v) = changes obs (\<lambda>v. v) v"
| "bystander obs (Plain f) = keeps obs f"
| "bystander obs Return = True"
| "bystander obs (Throw e) = True"
| "bystander obs (Block body) = (\<forall>x\<in>set body. bystander obs x)"
| "bystander obs (Cond p thn els) =
     ((\<forall>x\<in>set thn. bystander obs x) \<and> (\<forall>x\<in>set els. bystander obs x))"

text \<open>The exceptions that the \<open>Throw\<close> statements of a statement can raise.\<close>

fun thrown :: "('s, 'r, 'e) stmt \<Rightarrow> 'e set" where
  "thrown (Throw e) = {e}"
| "thrown (Block body) = (\<Union>x\<in>set body. thrown x)"
| "thrown (Cond p thn els) = (\<Union>x\<in>set thn \<union> set els. thrown x)"
| "thrown _ = {}"

section \<open>Scenarios that log the life of their guards\<close>

text \<open>
  To follow every guard of a program, each guard gets an identifier and the state is a log of
  events: \<open>Constructed i\<close> is written by the statement just before guard \<open>i\<close> is
  declared, \<open>Fired i\<close> is written by the action of guard \<open>i\<close>.
\<close>

datatype event = Constructed nat | Fired nat

definition record_event :: "event \<Rightarrow> event list \<Rightarrow> event list" where
  "record_event ev log = log @ [ev]"

definition fire :: "nat \<Rightarrow> (event list, 'r, 'e) callable" where
  "fire i = (\<lambda>log. (Returns_void, log @ [Fired i]))"

text \<open>
  A scenario is the outline of a block: guards, nested blocks, an early return, a thrown
  exception. \<open>realise\<close> turns it into the statements that log it.
\<close>

datatype 'e scenario = Guard nat | Nest "'e scenario list" | Leave | Fail 'e

fun realise :: "'e scenario \<Rightarrow> (event list, 'r, 'e) stmt list" where
  "realise (Guard i) = [Plain (record_event (Constructed i)), Declare (fire i)]"
| "realise (Nest ps) = [Block (concat (map realise ps))]"
| "realise Leave = [Return]"
| "realise (Fail e) = [Throw e]"

definition realise_all :: "'e scenario list \<Rightarrow> (event list, 'r, 'e) stmt list" where
  "realise_all ps = concat (map realise ps)"

text \<open>
  The identifiers of all guards of a scenario; of the guards declared in the block itself
  (\<open>own_ids\<close>); and of the guards declared in its nested blocks, at any depth
  (\<open>inner_ids\<close>).
\<close>

fun ids_of :: "'e scenario \<Rightarrow> nat list" where
  "ids_of (Guard i) = [i]"
| "ids_of (Nest ps) = concat (map ids_of ps)"
| "ids_of _ = []"

fun own_id :: "'e scenario \<Rightarrow> nat list" where
  "own_id (Guard i) = [i]"
| "own_id _ = []"

fun inner_id :: "'e scenario \<Rightarrow> nat list" where
  "inner_id (Nest ps) = concat (map ids_of ps)"
| "inner_id _ = []"

definition own_ids :: "'e scenario list \<Rightarrow> nat list" where
  "own_ids ps = concat (map own_id ps)"

definition inner_ids :: "'e scenario list \<Rightarrow> nat list" where
  "inner_ids ps = concat (map inner_id ps)"

text \<open>
  The guards that fired, in the order of a log, and the history of one guard: the events of
  the log that are about it.
\<close>

fun fired :: "event list \<Rightarrow> nat list" where
  "fired [] = []"
| "fired (Fired i # t) = i # fired t"
| "fired (Constructed i # t) = fired t"

definition life :: "nat \<Rightarrow> event list \<Rightarrow> event list" where
  "life i t = filter (\<lambda>ev. ev = Constructed i \<or> ev = Fired i) t"

text \<open>
  For the proofs: what the statements of a scenario come to, read off the scenario itself.
  The triple holds the completion, the guards of the block that are constructed and not yet
  destroyed (in declaration order) and the events logged. Lemma \<open>exec_outcome\<close> below
  shows that \<open>exec_stmts\<close> computes exactly this.
\<close>

fun outcome :: "'e scenario \<Rightarrow> 'e completion \<times> nat list \<times> event list"
and outcomes :: "'e scenario list \<Rightarrow> 'e completion \<times> nat list \<times> event list" where
  "outcome (Guard i) = (Normal, [i], [Constructed i])"
| "outcome (Nest ps) = (case outcomes ps of (c, own, t) \<Rightarrow> (c, [], t @ map Fired (rev own)))"
| "outcome Leave = (Returned, [], [])"
| "outcome (Fail e) = (Raised e, [], [])"
| "outcomes [] = (Normal, [], [])"
| "outcomes (p # ps) =
     (case outcome p of
        (Normal, own1, t1) \<Rightarrow> (case outcomes ps of (c, own2, t2) \<Rightarrow> (c, own1 @ own2, t1 @ t2))
      | (c, own1, t1) \<Rightarrow> (c, own1, t1))"

text \<open>
  The invariant of a log \<open>t\<close> written by a block whose guards \<open>own\<close> are still alive:
  a live guard has been constructed and has not fired; every other guard has either no event
  at all or was constructed and then fired once; guards outside \<open>ids\<close> have no event.
\<close>

definition tidy :: "nat list \<Rightarrow> nat list \<Rightarrow> event list \<Rightarrow> bool" where
  "tidy ids own t =
     (set own \<subseteq> set ids \<and> distinct own
      \<and> (\<forall>i. (i \<in> set own \<longrightarrow> life i t = [Constructed i])
             \<and> (i \<notin> set own \<longrightarrow> life i t = [] \<or> life i t = [Constructed i, Fired i])
             \<and> (i \<notin> set ids \<longrightarrow> life i t = [])))"

section \<open>Running statement lists\<close>

lemma exec_pending:
  "exec x (gs @ hs) s = (case exec x gs s of (c, gs', s') \<Rightarrow> (c, gs' @ hs, s'))"
  by (cases x) (simp_all split: prod.splits)

lemma exec_stmts_pending:
  "exec_stmts xs (gs @ hs) s = (case exec_stmts xs gs s of (c, gs', s') \<Rightarrow> (c, gs' @ hs, s'))"
proof (induction xs arbitrary: gs s)
  case Nil
  show ?case by simp
next
  case (Cons x xs)
  obtain c gs' s' where r: "exec x gs s = (c, gs', s')" by (cases "exec x gs s") auto
  then have r': "exec x (gs @ hs) s = (c, gs' @ hs, s')" by (simp add: exec_pending)
  show ?case using r r' Cons.IH[of gs' s'] by (cases c) simp_all
qed

lemma exec_stmts_append:
  "exec_stmts (xs @ ys) gs s =
     (case exec_stmts xs gs s of
        (Normal, gs', s') \<Rightarrow> exec_stmts ys gs' s'
      | (c, gs', s') \<Rightarrow> (c, gs', s'))"
proof (induction xs arbitrary: gs s)
  case Nil
  show ?case by simp
next
  case (Cons x xs)
  obtain c gs' s' where r: "exec x gs s = (c, gs', s')" by (cases "exec x gs s") auto
  show ?case using r Cons.IH[of gs' s'] by (cases c) simp_all
qed

lemma unwind_append:
  "c \<noteq> Terminated \<Longrightarrow> unwind (ds @ es) c s =
     (case unwind ds c s of
        (Terminated, s') \<Rightarrow> (Terminated, s')
      | (c', s') \<Rightarrow> unwind es c' s')"
proof (induction ds arbitrary: s)
  case Nil
  then show ?case by (cases c) simp_all
next
  case (Cons d ds)
  obtain x s' where r: "Defer_dtor d s = (x, s')" by (cases "Defer_dtor d s") auto
  show ?case using r Cons by (cases x) simp_all
qed

lemma unwind_completion:
  "fst (unwind ds c s) = c \<or> fst (unwind ds c s) = Terminated"
proof (induction ds arbitrary: s)
  case Nil
  show ?case by simp
next
  case (Cons d ds)
  obtain x s' where r: "Defer_dtor d s = (x, s')" by (cases "Defer_dtor d s") auto
  show ?case using r Cons by (cases x) simp_all
qed

section \<open>An exception that leaves a block was thrown by a statement\<close>

lemma leave_scope_completion:
  "fst (leave_scope ds c s) = c \<or> fst (leave_scope ds c s) = Terminated"
  using unwind_completion [of ds c s] by (cases c) (simp_all add: leave_scope_def)

lemma raised_is_thrown:
  fixes x :: "('s, 'r, 'e) stmt" and xs ys :: "('s, 'r, 'e) stmt list"
  shows "\<forall>y c gs' s'. exec x gs s = (c, gs', s') \<longrightarrow> c = Raised y \<longrightarrow> y \<in> thrown x"
  and "\<forall>y c gs' s'. exec_stmts xs gs s = (c, gs', s') \<longrightarrow> c = Raised y \<longrightarrow> y \<in> (\<Union>x\<in>set xs. thrown x)"
  and "\<forall>y c s'. exec_block ys s = (c, s') \<longrightarrow> c = Raised y \<longrightarrow> y \<in> (\<Union>x\<in>set ys. thrown x)"
proof (induction x gs s and xs gs s and ys s rule: exec_exec_stmts_exec_block.induct)
  case (6 body gs s)
  then show ?case by (auto split: prod.splits)
next
  case (7 p thn els gs s)
  then show ?case by (auto split: prod.splits if_splits)
next
  case (9 x xs gs s)
  obtain c gs' s' where r: "exec x gs s = (c, gs', s')" by (cases "exec x gs s") auto
  show ?case
  proof (cases c)
    case Normal
    with r "9.IH"(2) [of c "(gs', s')" gs' s'] show ?thesis by auto
  next
    case (Raised e)
    with r "9.IH"(1) show ?thesis by auto
  qed (use r in auto)
next
  case (10 body s)
  obtain c ds s' where r: "exec_stmts body [] s = (c, ds, s')"
    by (cases "exec_stmts body [] s") auto
  from leave_scope_completion [of ds c s'] r "10.IH" show ?case
    by (cases "leave_scope ds c s'") auto
qed auto

lemma fatal_unwind:
  assumes "c \<noteq> Terminated" "unwind later c s0 = (c, s1)" "m_callable d s1 = (Throws x, s2)"
  shows "unwind (later @ d # earlier) c s0 = (Terminated, s2)"
  using assms by (cases c) (simp_all add: unwind_append Defer_dtor_def)

section \<open>Bystanders leave the observed part alone\<close>

lemma changes_dtor:
  "changes obs g (m_callable d) \<Longrightarrow> \<exists>s'. Defer_dtor d s = (Completed, s') \<and> obs s' = g (obs s)"
  unfolding changes_def Defer_dtor_def
  by (drule spec [of _ s]) (auto split: prod.splits call_result.splits)

lemma unwind_bystanders:
  "\<forall>d\<in>set ds. changes obs (\<lambda>v. v) (m_callable d) \<Longrightarrow>
     \<exists>s'. unwind ds c s = (c, s') \<and> obs s' = obs s"
proof (induction ds arbitrary: s)
  case Nil
  show ?case by simp
next
  case (Cons d ds)
  then have "changes obs (\<lambda>v. v) (m_callable d)" by simp
  from changes_dtor [OF this, of s] obtain s1 where
    d: "Defer_dtor d s = (Completed, s1)" and o: "obs s1 = obs s" by auto
  from Cons have "\<forall>d\<in>set ds. changes obs (\<lambda>v. v) (m_callable d)" by simp
  from Cons.IH [OF this, of s1] d o show ?case by auto
qed

lemma bystander_exec:
  fixes x :: "('s, 'r, 'e) stmt" and xs ys :: "('s, 'r, 'e) stmt list" and obs :: "'s \<Rightarrow> 'v"
  shows "bystander obs x \<longrightarrow> (\<exists>c new s'. exec x gs s = (c, new @ gs, s') \<and> c \<noteq> Terminated
            \<and> obs s' = obs s \<and> (\<forall>d\<in>set new. changes obs (\<lambda>v. v) (m_callable d)))"
  and "(\<forall>x\<in>set xs. bystander obs x) \<longrightarrow> (\<exists>c new s'. exec_stmts xs gs s = (c, new @ gs, s')
            \<and> c \<noteq> Terminated \<and> obs s' = obs s \<and> (\<forall>d\<in>set new. changes obs (\<lambda>v. v) (m_callable d)))"
  and "(\<forall>x\<in>set ys. bystander obs x) \<longrightarrow> (\<exists>c s'. exec_block ys s = (c, s') \<and> c \<noteq> Terminated
            \<and> obs s' = obs s)"
proof (induction x gs s and xs gs s and ys s rule: exec_exec_stmts_exec_block.induct)
  case (1 a gs s)
  show ?case by (simp add: Defer_ctor_def)
next
  case (2 v gs s)
  show ?case by (simp add: Defer_default_def)
next
  case (3 f gs s)
  show ?case by (simp add: keeps_def)
next
  case (4 gs s)
  show ?case by simp
next
  case (5 e gs s)
  show ?case by simp
next
  case (6 body gs s)
  then show ?case by auto
next
  case (7 p thn els gs s)
  then show ?case by (cases "p s") auto
next
  case (8 gs s)
  show ?case by simp
next
  case (9 x xs gs s)
  show ?case
  proof
    assume b: "\<forall>x\<in>set (x # xs). bystander obs x"
    with "9.IH"(1) obtain c new s1 where
      r: "exec x gs s = (c, new @ gs, s1)" and c: "c \<noteq> Terminated" and o: "obs s1 = obs s"
      and q: "\<forall>d\<in>set new. changes obs (\<lambda>v. v) (m_callable d)" by auto
    show "\<exists>c new s'. exec_stmts (x # xs) gs s = (c, new @ gs, s') \<and> c \<noteq> Terminated
            \<and> obs s' = obs s \<and> (\<forall>d\<in>set new. changes obs (\<lambda>v. v) (m_callable d))"
    proof (cases c)
      case Normal
      with r b "9.IH"(2) [of c "(new @ gs, s1)" "new @ gs" s1] obtain c' new' s2 where
        r': "exec_stmts xs (new @ gs) s1 = (c', new' @ new @ gs, s2)" and c': "c' \<noteq> Terminated"
        and o': "obs s2 = obs s1"
        and q': "\<forall>d\<in>set new'. changes obs (\<lambda>v. v) (m_callable d)" by auto
      have "exec_stmts (x # xs) gs s = (c', (new' @ new) @ gs, s2)"
        using r r' Normal by simp
      moreover have "\<forall>d\<in>set (new' @ new). changes obs (\<lambda>v. v) (m_callable d)"
        using q q' by auto
      ultimately show ?thesis using c' o o' by metis
    next
      case Returned
      with r c o q show ?thesis by auto
    next
      case (Raised e)
      with r c o q show ?thesis by auto
    next
      case Terminated
      with c show ?thesis by simp
    qed
  qed
next
  case (10 body s)
  show ?case
  proof
    assume b: "\<forall>x\<in>set body. bystander obs x"
    with "10.IH" obtain c new s1 where
      r: "exec_stmts body [] s = (c, new, s1)" and c: "c \<noteq> Terminated" and o: "obs s1 = obs s"
      and q: "\<forall>d\<in>set new. changes obs (\<lambda>v. v) (m_callable d)" by auto
    from unwind_bystanders [OF q, of c s1] obtain s2 where
      "unwind new c s1 = (c, s2)" and "obs s2 = obs s1" by auto
    with r c o show "\<exists>c s'. exec_block body s = (c, s') \<and> c \<noteq> Terminated \<and> obs s' = obs s"
      by (cases c) (simp_all add: leave_scope_def)
  qed
qed

text \<open>
  One observed guard among bystanders: when the statements of the block are done, the
  observed part is untouched; leaving the block applies the action's effect to it once.
\<close>

lemma lone_guard:
  fixes pre post :: "('s, 'r, 'e) stmt list" and obs :: "'s \<Rightarrow> 'v"
  assumes pre: "\<forall>x\<in>set pre. bystander obs x" and post: "\<forall>x\<in>set post. bystander obs x"
    and reached: "fst (exec_stmts pre [] s) = Normal"
    and act: "changes obs g a"
  shows "\<exists>c gs s1 s'. exec_stmts (pre @ Declare a # post) [] s = (c, gs, s1) \<and> obs s1 = obs s
           \<and> exec_block (pre @ Declare a # post) s = (c, s')
           \<and> c \<noteq> Terminated \<and> obs s' = g (obs s)"
proof -
  from bystander_exec(2) [of pre obs "[]" s] pre reached obtain gs1 s1 where
    r1: "exec_stmts pre [] s = (Normal, gs1, s1)" and o1: "obs s1 = obs s"
    and q1: "\<forall>d\<in>set gs1. changes obs (\<lambda>v. v) (m_callable d)" by auto
  from bystander_exec(2) [of post obs "Defer_ctor a # gs1" s1] post obtain c gs2 s2 where
    r2: "exec_stmts post (Defer_ctor a # gs1) s1 = (c, gs2 @ Defer_ctor a # gs1, s2)"
    and c: "c \<noteq> Terminated" and o2: "obs s2 = obs s1"
    and q2: "\<forall>d\<in>set gs2. changes obs (\<lambda>v. v) (m_callable d)" by auto
  have body: "exec_stmts (pre @ Declare a # post) [] s = (c, gs2 @ Defer_ctor a # gs1, s2)"
    using r1 r2 by (simp add: exec_stmts_append)
  from unwind_bystanders [OF q2, of c s2] obtain s3 where
    u2: "unwind gs2 c s2 = (c, s3)" and o3: "obs s3 = obs s2" by auto
  from act have "changes obs g (m_callable (Defer_ctor a))" by (simp add: Defer_ctor_def)
  from changes_dtor [OF this, of s3] obtain s4 where
    d: "Defer_dtor (Defer_ctor a) s3 = (Completed, s4)" and o4: "obs s4 = g (obs s3)" by auto
  from unwind_bystanders [OF q1, of c s4] obtain s5 where
    u1: "unwind gs1 c s4 = (c, s5)" and o5: "obs s5 = obs s4" by auto
  have "unwind (gs2 @ Defer_ctor a # gs1) c s2 = (c, s5)"
    using c u2 d u1 by (cases c) (simp_all add: unwind_append)
  with body c have "exec_block (pre @ Declare a # post) s = (c, s5)"
    by (cases c) (simp_all add: leave_scope_def)
  with body c o1 o2 o3 o4 o5 show ?thesis by simp
qed

lemma changes_count_call: "changes fst Suc count_call"
  by (simp add: changes_def count_call_def split: prod.splits)

lemma changes_set_flag: "changes fst (\<lambda>(b, n). (True, Suc n)) set_flag"
  by (simp add: changes_def set_flag_def split: prod.splits)

section \<open>The action runs exactly once, however the block is left\<close>

text \<open>
  C1. A guard constructed with an action invokes the action exactly once when control leaves
  the enclosing block, whether the block is left by falling through its end, by an early
  return or by an exception that unwinds it. With the counting action: take any block
  \<open>pre @ Declare count_call # post\<close> in which the declaration is reached and whose
  other statements and guards leave the counter alone. When the statements are done the
  counter is unchanged, and after the block is left, in whichever of the three ways, it has
  grown by exactly one.
\<close>

theorem guard_fires_exactly_once:
  fixes pre post :: "(nat \<times> 'a, 'r, 'e) stmt list"
  assumes "list_all (bystander fst) pre" and "list_all (bystander fst) post"
    and "fst (exec_stmts pre [] s) = Normal"
  shows "\<exists>c gs s1 s'. exec_stmts (pre @ Declare count_call # post) [] s = (c, gs, s1)
           \<and> fst s1 = fst s
           \<and> exec_block (pre @ Declare count_call # post) s = (c, s')
           \<and> (c = Normal \<or> c = Returned \<or> (\<exists>e. c = Raised e))
           \<and> fst s' = Suc (fst s)"
proof -
  from assms(1,2) have "\<forall>x\<in>set pre. bystander fst x" and "\<forall>x\<in>set post. bystander fst x"
    by (simp_all add: list_all_iff)
  from lone_guard [OF this assms(3) changes_count_call] obtain c gs s1 s' where
    r: "exec_stmts (pre @ Declare count_call # post) [] s = (c, gs, s1)" "fst s1 = fst s"
    "exec_block (pre @ Declare count_call # post) s = (c, s')"
    "c \<noteq> Terminated" "fst s' = Suc (fst s)" by blast
  from r(4) have "c = Normal \<or> c = Returned \<or> (\<exists>e. c = Raised e)" by (cases c) simp_all
  with r show ?thesis by simp
qed

theorem guard_fires_exactly_once_witness:
  "list_all (bystander fst) [Plain other_work :: (nat \<times> nat, unit, string) stmt]
   \<and> fst (exec_stmts [Plain other_work :: (nat \<times> nat, unit, string) stmt] [] (0, 0)) = Normal
   \<and> exec_block ([Plain other_work] @ Declare count_call # [Plain other_work :: (nat \<times> nat, unit, string) stmt]) (0, 0)
        = (Normal, (1, 20))
   \<and> exec_block ([Plain other_work] @ Declare count_call # [Cond (\<lambda>(n, x). x = 10) [Return] [], Plain other_work :: (nat \<times> nat, unit, string) stmt]) (0, 0)
        = (Returned, (1, 10))
   \<and> exec_block ([Plain other_work] @ Declare count_call # [Block [Plain other_work, Throw ''boom''], Plain other_work :: (nat \<times> nat, unit, string) stmt]) (0, 0)
        = (Raised ''boom'', (1, 20))"
  using guard_fires_exactly_once [of "[Plain other_work :: (nat \<times> nat, unit, string) stmt]" "[Plain other_work]" "(0, 0)"]
    guard_fires_exactly_once [of "[Plain other_work :: (nat \<times> nat, unit, string) stmt]" "[Cond (\<lambda>(n, x). x = 10) [Return] [], Plain other_work]" "(0, 0)"]
    guard_fires_exactly_once [of "[Plain other_work :: (nat \<times> nat, unit, string) stmt]" "[Block [Plain other_work, Throw ''boom''], Plain other_work]" "(0, 0)"]
  by (simp add: other_work_def count_call_def keeps_def leave_scope_def Defer_dtor_def Defer_ctor_def)

section \<open>The default-constructed guard\<close>

text \<open>
  C6, as the claim states it, fails: a default-constructed guard calls the value-initialised
  callable, and that call can have an effect. Here the callable type is one whose
  value-initialised object counts its calls; the counter is \<open>1\<close> after the block.
\<close>

theorem default_guard_not_noop_counterexample:
  "snd (exec_block [Declare_default (count_call :: (nat \<times> unit, unit, unit) callable)] (0, ())) \<noteq> (0, ())"
  by (simp add: count_call_def leave_scope_def Defer_dtor_def Defer_default_def)

text \<open>
  C6, amended. A default-constructed guard holds the value-initialised callable and invokes
  it when the block is left, exactly as a guard constructed with that callable would. Leaving
  the block ends the program if that call throws, and leaves the state as it was if and only
  if that call does.
\<close>

theorem default_guard_calls_value_initialized:
  "Defer_dtor (Defer_default v) s = Defer_dtor (Defer_ctor v) s
   \<and> exec_block [Declare_default v] s
        = (case v s of (Throws e, s') \<Rightarrow> (Terminated, s') | (_, s') \<Rightarrow> (Normal, s'))
   \<and> (snd (exec_block [Declare_default v] s) = s) = (snd (v s) = s)"
  by (auto simp add: Defer_default_def Defer_ctor_def Defer_dtor_def leave_scope_def
      split: prod.splits call_result.splits dtor_exit.splits)

section \<open>The result of the action\<close>

text \<open>
  C7, as the claim states it, fails: a guard can hold an action that yields a result. The
  action \<open>answer\<close> returns \<open>42\<close>; a guard is constructed with it and runs it when the
  block is left.
\<close>

theorem result_yielding_action_counterexample:
  "fst (m_callable (Defer_ctor (answer :: (nat, int, unit) callable)) 0) = Returns_value 42
   \<and> fst (m_callable (Defer_ctor (answer :: (nat, int, unit) callable)) 0) \<noteq> Returns_void
   \<and> exec_block [Declare (answer :: (nat, int, unit) callable)] 0 = (Normal, 1)"
  by (simp add: answer_def Defer_ctor_def Defer_dtor_def leave_scope_def)

text \<open>
  C7, amended. The action of a guard is called with no argument, and it may yield a result
  of any type: the destructor drops the result, so the guard completes in the state the
  call left, the same as for an action that yields nothing.
\<close>

theorem action_result_is_discarded:
  "(m_callable d s = (Returns_value r, s') \<longrightarrow> Defer_dtor d s = (Completed, s'))
   \<and> (m_callable d s = (Returns_void, s') \<longrightarrow> Defer_dtor d s = (Completed, s'))
   \<and> (a s = (Returns_value r, s') \<longrightarrow> exec_block [Declare a] s = (Normal, s'))"
  by (simp add: Defer_dtor_def Defer_ctor_def leave_scope_def)

theorem action_result_is_discarded_witness:
  "m_callable (Defer_ctor (answer :: (nat, int, unit) callable)) 0 = (Returns_value 42, 1)
   \<and> Defer_dtor (Defer_ctor (answer :: (nat, int, unit) callable)) 0 = (Completed, 1)
   \<and> m_callable (Defer_ctor (\<lambda>n. (Returns_void :: (int, unit) call_result, Suc n))) 0 = (Returns_void, 1)
   \<and> Defer_dtor (Defer_ctor (\<lambda>n. (Returns_void :: (int, unit) call_result, Suc n))) 0 = (Completed, 1)
   \<and> exec_block [Declare (answer :: (nat, int, unit) callable)] 0 = (Normal, 1)"
  using action_result_is_discarded [of "Defer_ctor (answer :: (nat, int, unit) callable)" 0 42 1 "answer :: (nat, int, unit) callable"]
    action_result_is_discarded [of "Defer_ctor (\<lambda>n. (Returns_void :: (int, unit) call_result, Suc n))" 0 42 1 "answer :: (nat, int, unit) callable"]
  by (simp add: answer_def Defer_ctor_def)

section \<open>An action that throws\<close>

text \<open>
  C8. If the action of a guard throws when the guard is destroyed, the exception does not
  reach the caller: the destructor ends the program. At the level of a block: if the
  statements of the block left it in any way \<open>c\<close> (normally, by return, or with an
  exception in flight), the guards declared after \<open>d\<close> have been destroyed, and the action
  of \<open>d\<close> throws, then the block ends in \<open>Terminated\<close>. And whenever a block is left with
  an exception, that exception was thrown by a statement of the block, never by an action.
\<close>

theorem action_error_is_fatal:
  fixes body :: "('s, 'r, 'e) stmt list"
  shows "(m_callable d s1 = (Throws x, s2) \<longrightarrow> Defer_dtor d s1 = (Std_terminate, s2))
   \<and> (exec_stmts body [] s = (c, later @ d # earlier, s0) \<and> c \<noteq> Terminated
        \<and> unwind later c s0 = (c, s1) \<and> m_callable d s1 = (Throws x, s2)
      \<longrightarrow> exec_block body s = (Terminated, s2))
   \<and> (fst (exec_block body s) = Raised y \<longrightarrow> y \<in> (\<Union>x\<in>set body. thrown x))"
proof (intro conjI impI)
  assume "m_callable d s1 = (Throws x, s2)"
  then show "Defer_dtor d s1 = (Std_terminate, s2)" by (simp add: Defer_dtor_def)
next
  assume a: "exec_stmts body [] s = (c, later @ d # earlier, s0) \<and> c \<noteq> Terminated
        \<and> unwind later c s0 = (c, s1) \<and> m_callable d s1 = (Throws x, s2)"
  then have "c \<noteq> Terminated" and "unwind later c s0 = (c, s1)"
    and "m_callable d s1 = (Throws x, s2)"
    by simp_all
  then have "unwind (later @ d # earlier) c s0 = (Terminated, s2)"
    by (rule fatal_unwind)
  with a show "exec_block body s = (Terminated, s2)"
    by (cases c) (simp_all add: leave_scope_def)
next
  assume "fst (exec_block body s) = Raised y"
  with raised_is_thrown(3) [of body s] show "y \<in> (\<Union>x\<in>set body. thrown x)"
    by (cases "exec_block body s") auto
qed

theorem action_error_is_fatal_witness:
  "m_callable (Defer_ctor failing_action) (0::nat) = (Throws ''cleanup failed'', 1)
   \<and> exec_stmts [Declare failing_action, Throw ''in flight''] [] (0::nat)
       = (Raised ''in flight'', [] @ Defer_ctor failing_action # [], 0)
   \<and> Defer_dtor (Defer_ctor (failing_action :: (nat, int, string) callable)) 0 = (Std_terminate, 1)
   \<and> exec_block [Declare (failing_action :: (nat, int, string) callable), Throw ''in flight''] 0
       = (Terminated, 1)
   \<and> fst (exec_block [Declare (answer :: (nat, int, string) callable), Throw ''in flight''] 0)
       = Raised ''in flight''
   \<and> ''in flight'' \<in> (\<Union>x\<in>set [Declare (answer :: (nat, int, string) callable), Throw ''in flight'']. thrown x)"
  using action_error_is_fatal [where body = "[Declare (failing_action :: (nat, int, string) callable), Throw ''in flight'']"
      and s = 0 and c = "Raised ''in flight''" and later = "[]" and d = "Defer_ctor failing_action"
      and earlier = "[]" and ?s0.0 = 0 and ?s1.0 = 0 and x = "''cleanup failed''" and ?s2.0 = 1]
    action_error_is_fatal [where body = "[Declare (answer :: (nat, int, string) callable), Throw ''in flight'']"
      and s = 0 and y = "''in flight''"]
  by (simp add: failing_action_def answer_def Defer_ctor_def Defer_dtor_def leave_scope_def)

section \<open>An exception in flight passes the guard unchanged\<close>

text \<open>
  C9. A block declares a guard whose action sets a flag, and an exception \<open>e\<close> is then
  raised by the statements of the block (directly or from a nested block) before its end.
  After the unwinding the flag is set, it has been written exactly once, and the block is
  left with the same exception \<open>e\<close>.
\<close>

theorem error_passes_through_guard:
  fixes pre post :: "((bool \<times> nat) \<times> 'a, 'r, 'e) stmt list"
  assumes "list_all (bystander fst) pre" and "list_all (bystander fst) post"
    and "fst (exec_stmts pre [] s) = Normal"
    and "fst (exec_stmts (pre @ Declare set_flag # post) [] s) = Raised e"
  shows "\<exists>s'. exec_block (pre @ Declare set_flag # post) s = (Raised e, s')
           \<and> fst s' = (True, Suc (snd (fst s)))"
proof -
  from assms(1,2) have "\<forall>x\<in>set pre. bystander fst x" and "\<forall>x\<in>set post. bystander fst x"
    by (simp_all add: list_all_iff)
  from lone_guard [OF this assms(3) changes_set_flag] assms(4) show ?thesis
    by (auto split: prod.splits)
qed

theorem error_passes_through_guard_witness:
  "list_all (bystander fst) [Plain deeper_work :: ((bool \<times> nat) \<times> nat, unit, string) stmt]
   \<and> list_all (bystander fst) [Block [Plain deeper_work, Throw ''boom''], Plain deeper_work :: ((bool \<times> nat) \<times> nat, unit, string) stmt]
   \<and> fst (exec_stmts [Plain deeper_work :: ((bool \<times> nat) \<times> nat, unit, string) stmt] [] ((False, 0), 0)) = Normal
   \<and> fst (exec_stmts ([Plain deeper_work] @ Declare set_flag # [Block [Plain deeper_work, Throw ''boom''], Plain deeper_work :: ((bool \<times> nat) \<times> nat, unit, string) stmt]) [] ((False, 0), 0)) = Raised ''boom''
   \<and> exec_block ([Plain deeper_work] @ Declare set_flag # [Block [Plain deeper_work, Throw ''boom''], Plain deeper_work :: ((bool \<times> nat) \<times> nat, unit, string) stmt]) ((False, 0), 0)
        = (Raised ''boom'', ((True, 1), 20))"
  using error_passes_through_guard [of "[Plain deeper_work :: ((bool \<times> nat) \<times> nat, unit, string) stmt]"
     "[Block [Plain deeper_work, Throw ''boom''], Plain deeper_work]" "((False, 0), 0)" "''boom''"]
  by (simp add: deeper_work_def set_flag_def keeps_def leave_scope_def Defer_dtor_def Defer_ctor_def)

section \<open>Sibling guards fire in reverse order\<close>

lemma appends_bystanders:
  "\<forall>d\<in>set ds. changes fst (\<lambda>v. v) (m_callable d) \<Longrightarrow> appends ds []"
  unfolding appends_def using unwind_bystanders [of ds fst] by fastforce

lemma appends_append_id: "appends [Defer_ctor (append_id i)] [i]"
  by (simp add: appends_def Defer_dtor_def Defer_ctor_def append_id_def split: prod.splits)

lemma appends_append:
  assumes "appends ds1 js1" and "appends ds2 js2"
  shows "appends (ds1 @ ds2) (js1 @ js2)"
  unfolding appends_def
proof (intro allI impI)
  fix c :: "'c completion" and s :: "nat list \<times> 'a"
  assume c: "c \<noteq> Terminated"
  with assms(1) obtain s1 where u1: "unwind ds1 c s = (c, s1)" and f1: "fst s1 = fst s @ js1"
    unfolding appends_def by blast
  from c assms(2) obtain s2 where u2: "unwind ds2 c s1 = (c, s2)" and f2: "fst s2 = fst s1 @ js2"
    unfolding appends_def by blast
  from c u1 u2 have "unwind (ds1 @ ds2) c s = (c, s2)"
    by (cases c) (simp_all add: unwind_append)
  with f1 f2 show "\<exists>s'. unwind (ds1 @ ds2) c s = (c, s') \<and> fst s' = fst s @ js1 @ js2" by simp
qed

lemma siblings_exec:
  fixes segs :: "((nat list \<times> 'a, 'r, 'e) stmt list \<times> nat) list"
  assumes "\<forall>x\<in>set (concat (map fst segs)). bystander fst x"
    and "fst (exec_stmts (siblings segs) gs s) = Normal"
  shows "\<exists>new s1. exec_stmts (siblings segs) gs s = (Normal, new @ gs, s1) \<and> fst s1 = fst s
           \<and> appends new (rev (map snd segs))"
  using assms
proof (induction segs arbitrary: gs s)
  case Nil
  have "appends ([] :: (nat list \<times> 'a, 'r, 'e) Defer list) []" by (simp add: appends_def)
  then show ?case by (simp add: siblings_def)
next
  case (Cons seg segs)
  obtain between i where seg: "seg = (between, i)" by (cases seg) auto
  have split: "siblings (seg # segs) = between @ Declare (append_id i) # siblings segs"
    by (simp add: siblings_def seg)
  from Cons.prems(1) seg have b: "\<forall>x\<in>set between. bystander fst x"
    and rest: "\<forall>x\<in>set (concat (map fst segs)). bystander fst x" by auto
  from bystander_exec(2) [of between fst gs s] b obtain c1 new1 s1 where
    r1: "exec_stmts between gs s = (c1, new1 @ gs, s1)" and o1: "fst s1 = fst s"
    and q1: "\<forall>d\<in>set new1. changes fst (\<lambda>v. v) (m_callable d)" by auto
  have c1: "c1 = Normal"
    using Cons.prems(2) r1 by (cases c1) (simp_all add: split exec_stmts_append)
  have r2: "exec_stmts (siblings (seg # segs)) gs s
      = exec_stmts (siblings segs) (Defer_ctor (append_id i) # new1 @ gs) s1"
    using r1 c1 by (simp add: split exec_stmts_append)
  with Cons.prems(2) have "fst (exec_stmts (siblings segs) (Defer_ctor (append_id i) # new1 @ gs) s1) = Normal"
    by simp
  from Cons.IH [OF rest this] obtain new2 s2 where
    r3: "exec_stmts (siblings segs) (Defer_ctor (append_id i) # new1 @ gs) s1
          = (Normal, new2 @ Defer_ctor (append_id i) # new1 @ gs, s2)"
    and o2: "fst s2 = fst s1" and a2: "appends new2 (rev (map snd segs))" by blast
  have "appends (new2 @ [Defer_ctor (append_id i)] @ new1) (rev (map snd segs) @ [i] @ [])"
    by (intro appends_append a2 appends_append_id appends_bystanders q1)
  then have "appends (new2 @ Defer_ctor (append_id i) # new1) (rev (map snd (seg # segs)))"
    by (simp add: seg)
  moreover have "exec_stmts (siblings (seg # segs)) gs s
      = (Normal, (new2 @ Defer_ctor (append_id i) # new1) @ gs, s2)"
    using r2 r3 by simp
  ultimately show ?case using o1 o2 by metis
qed

lemma exec_stmts_append_id:
  "exec_stmts (map (\<lambda>i. Declare (append_id i)) ids) gs s =
     (Normal, map (\<lambda>i. Defer_ctor (append_id i)) (rev ids) @ gs, s)"
  by (induction ids arbitrary: gs) simp_all

lemma unwind_append_id:
  "unwind (map (\<lambda>i. Defer_ctor (append_id i)) js) c (q, x) = (c, (q @ js, x))"
  by (induction js arbitrary: q) (simp_all add: Defer_dtor_def Defer_ctor_def append_id_def)

text \<open>
  C3. Sibling guards of one block fire in the reverse of their declaration order, however
  the block is left. Take any block that declares guards in the order \<open>map snd segs\<close>,
  each appending its identifier to a shared sequence when it fires, with any other statements
  before, between and after them that leave the sequence alone, and in which every one of
  these declarations is reached. When the statements are done the sequence is unchanged, and
  after the block is left, by falling through, by an early return or by an exception, the
  identifiers have been appended in the order \<open>rev (map snd segs)\<close>. In particular three
  guards declared in the order \<open>g1\<close>, \<open>g2\<close>, \<open>g3\<close> leave \<open>[g3, g2, g1]\<close>.
\<close>

theorem siblings_fire_in_reverse:
  fixes segs :: "((nat list \<times> 'a, 'r, 'e) stmt list \<times> nat) list"
    and post :: "(nat list \<times> 'a, 'r, 'e) stmt list"
  assumes "list_all (bystander fst) (concat (map fst segs))" and "list_all (bystander fst) post"
    and "fst (exec_stmts (siblings segs) [] s) = Normal"
  shows "(\<exists>c gs s1 s'. exec_stmts (siblings segs @ post) [] s = (c, gs, s1) \<and> fst s1 = fst s
            \<and> exec_block (siblings segs @ post) s = (c, s')
            \<and> (c = Normal \<or> c = Returned \<or> (\<exists>e. c = Raised e))
            \<and> fst s' = fst s @ rev (map snd segs))
   \<and> exec_block ([Declare (append_id g1), Declare (append_id g2), Declare (append_id g3)]
          :: (nat list \<times> 'a, 'r, 'e) stmt list) ([], x)
        = (Normal, ([g3, g2, g1], x))
   \<and> exec_block (map (\<lambda>i. Declare (append_id i)) ids :: (nat list \<times> 'a, 'r, 'e) stmt list) (q, x)
        = (Normal, (q @ rev ids, x))"
proof (intro conjI)
  from assms(1,2) have pre: "\<forall>x\<in>set (concat (map fst segs)). bystander fst x"
    and post: "\<forall>x\<in>set post. bystander fst x"
    by (simp_all add: list_all_iff)
  from siblings_exec [OF pre assms(3)] obtain new s1 where
    r1: "exec_stmts (siblings segs) [] s = (Normal, new, s1)" and o1: "fst s1 = fst s"
    and a1: "appends new (rev (map snd segs))" by auto
  from bystander_exec(2) [of post fst new s1] post obtain c new2 s2 where
    r2: "exec_stmts post new s1 = (c, new2 @ new, s2)" and c: "c \<noteq> Terminated"
    and o2: "fst s2 = fst s1"
    and q2: "\<forall>d\<in>set new2. changes fst (\<lambda>v. v) (m_callable d)" by auto
  have body: "exec_stmts (siblings segs @ post) [] s = (c, new2 @ new, s2)"
    using r1 r2 by (simp add: exec_stmts_append)
  have "appends (new2 @ new) ([] @ rev (map snd segs))"
    by (intro appends_append appends_bystanders q2 a1)
  with c obtain s3 where u: "unwind (new2 @ new) c s2 = (c, s3)"
    and o3: "fst s3 = fst s2 @ rev (map snd segs)"
    unfolding appends_def by fastforce
  from body c u have "exec_block (siblings segs @ post) s = (c, s3)"
    by (cases c) (simp_all add: leave_scope_def)
  moreover from c have "c = Normal \<or> c = Returned \<or> (\<exists>e. c = Raised e)" by (cases c) simp_all
  ultimately show "\<exists>c gs s1 s'. exec_stmts (siblings segs @ post) [] s = (c, gs, s1) \<and> fst s1 = fst s
            \<and> exec_block (siblings segs @ post) s = (c, s')
            \<and> (c = Normal \<or> c = Returned \<or> (\<exists>e. c = Raised e))
            \<and> fst s' = fst s @ rev (map snd segs)"
    using body o1 o2 o3 by simp
next
  have general: "exec_block (map (\<lambda>i. Declare (append_id i)) js :: (nat list \<times> 'a, 'r, 'e) stmt list) (t, y)
      = (Normal, (t @ rev js, y))" for js t y
    by (simp add: exec_stmts_append_id [where gs = "[]", simplified]
        leave_scope_def unwind_append_id)
  from general [of "[g1, g2, g3]" "[]" x]
  show "exec_block ([Declare (append_id g1), Declare (append_id g2), Declare (append_id g3)]
          :: (nat list \<times> 'a, 'r, 'e) stmt list) ([], x) = (Normal, ([g3, g2, g1], x))" by simp
  from general [of ids q x]
  show "exec_block (map (\<lambda>i. Declare (append_id i)) ids :: (nat list \<times> 'a, 'r, 'e) stmt list) (q, x)
        = (Normal, (q @ rev ids, x))" .
qed

theorem siblings_fire_in_reverse_witness:
  "list_all (bystander fst)
     (concat (map fst [([Plain side_work], 1), ([Plain side_work], 2),
        ([] :: (nat list \<times> nat, unit, string) stmt list, 3)]))
   \<and> fst (exec_stmts (siblings [([Plain side_work], 1), ([Plain side_work], 2),
        ([] :: (nat list \<times> nat, unit, string) stmt list, 3)]) [] ([], 0)) = Normal
   \<and> siblings [([Plain side_work], 1), ([Plain side_work], 2),
        ([] :: (nat list \<times> nat, unit, string) stmt list, 3)]
       = [Plain side_work, Declare (append_id 1), Plain side_work, Declare (append_id 2),
          Declare (append_id 3)]
   \<and> exec_block (siblings [([Plain side_work], 1), ([Plain side_work], 2),
        ([] :: (nat list \<times> nat, unit, string) stmt list, 3)] @ [Plain side_work]) ([], 0)
       = (Normal, ([3, 2, 1], 30))
   \<and> exec_block (siblings [([Plain side_work], 1), ([Plain side_work], 2),
        ([] :: (nat list \<times> nat, unit, string) stmt list, 3)]
          @ [Cond (\<lambda>(log, x). x = 20) [Return] [], Plain side_work]) ([], 0)
       = (Returned, ([3, 2, 1], 20))
   \<and> exec_block (siblings [([Plain side_work], 1), ([Plain side_work], 2),
        ([] :: (nat list \<times> nat, unit, string) stmt list, 3)]
          @ [Block [Plain side_work, Throw ''boom''], Plain side_work]) ([], 0)
       = (Raised ''boom'', ([3, 2, 1], 30))"
  using siblings_fire_in_reverse [of "[([Plain side_work], 1), ([Plain side_work], 2),
        ([] :: (nat list \<times> nat, unit, string) stmt list, 3)]" "[Plain side_work]" "([], 0)"]
    siblings_fire_in_reverse [of "[([Plain side_work], 1), ([Plain side_work], 2),
        ([] :: (nat list \<times> nat, unit, string) stmt list, 3)]"
        "[Cond (\<lambda>(log, x). x = 20) [Return] [], Plain side_work]" "([], 0)"]
    siblings_fire_in_reverse [of "[([Plain side_work], 1), ([Plain side_work], 2),
        ([] :: (nat list \<times> nat, unit, string) stmt list, 3)]"
        "[Block [Plain side_work, Throw ''boom''], Plain side_work]" "([], 0)"]
  by (simp add: siblings_def side_work_def append_id_def keeps_def leave_scope_def
      Defer_dtor_def Defer_ctor_def)

section \<open>Running a scenario\<close>

lemma outcome_not_Terminated:
  "fst (outcome (p :: 'e scenario)) \<noteq> Terminated"
  "fst (outcomes (ps :: 'e scenario list)) \<noteq> Terminated"
proof (induction p and ps rule: outcome_outcomes.induct)
  case (2 ps)
  then show ?case by (cases "outcomes ps") simp
next
  case (6 p ps)
  obtain c1 own1 t1 where o1: "outcome p = (c1, own1, t1)" by (cases "outcome p") auto
  show ?case
  proof (cases c1)
    case Normal
    with "6.IH"(2) [of c1 "(own1, t1)" own1 t1] o1 show ?thesis
      by (cases "outcomes ps") simp
  qed (use o1 "6.IH"(1) in simp_all)
qed simp_all

lemma unwind_fire:
  "unwind (map (\<lambda>i. Defer_ctor (fire i)) js) c s = (c, s @ map Fired js)"
  by (induction js arbitrary: s) (simp_all add: Defer_dtor_def Defer_ctor_def fire_def)

lemma exec_outcome:
  fixes p :: "'e scenario" and ps :: "'e scenario list"
  shows "\<forall>gs s. exec_stmts (realise p :: (event list, 'r, 'e) stmt list) gs s =
           (case outcome p of (c, own, t) \<Rightarrow> (c, map (\<lambda>i. Defer_ctor (fire i)) (rev own) @ gs, s @ t))"
    and "\<forall>gs s. exec_stmts (realise_all ps :: (event list, 'r, 'e) stmt list) gs s =
           (case outcomes ps of (c, own, t) \<Rightarrow> (c, map (\<lambda>i. Defer_ctor (fire i)) (rev own) @ gs, s @ t))"
proof (induction p and ps rule: outcome_outcomes.induct)
  case (1 i)
  show ?case by (simp add: record_event_def)
next
  case (2 ps)
  show ?case
  proof (intro allI)
    fix gs :: "(event list, 'r, 'e) Defer list" and s :: "event list"
    obtain c own t where o: "outcomes ps = (c, own, t)" by (cases "outcomes ps") auto
    with outcome_not_Terminated(2) [of ps] have c: "c \<noteq> Terminated" by simp
    from 2 o have "exec_stmts (realise_all ps :: (event list, 'r, 'e) stmt list) [] s
        = (c, map (\<lambda>i. Defer_ctor (fire i)) (rev own), s @ t)" by simp
    with c have "exec_block (realise_all ps :: (event list, 'r, 'e) stmt list) s
        = (c, s @ t @ map Fired (rev own))"
      by (cases c) (simp_all add: leave_scope_def unwind_fire)
    with o show "exec_stmts (realise (Nest ps) :: (event list, 'r, 'e) stmt list) gs s =
           (case outcome (Nest ps) of (c, own, t) \<Rightarrow> (c, map (\<lambda>i. Defer_ctor (fire i)) (rev own) @ gs, s @ t))"
      by (cases c) (simp_all add: realise_all_def)
  qed
next
  case 3
  show ?case by simp
next
  case (4 e)
  show ?case by simp
next
  case 5
  show ?case by (simp add: realise_all_def)
next
  case (6 p ps)
  show ?case
  proof (intro allI)
    fix gs :: "(event list, 'r, 'e) Defer list" and s :: "event list"
    obtain c1 own1 t1 where o1: "outcome p = (c1, own1, t1)" by (cases "outcome p") auto
    have split: "realise_all (p # ps) = (realise p @ realise_all ps :: (event list, 'r, 'e) stmt list)"
      by (simp add: realise_all_def)
    from "6.IH"(1) o1 have e1: "exec_stmts (realise p :: (event list, 'r, 'e) stmt list) gs s
        = (c1, map (\<lambda>i. Defer_ctor (fire i)) (rev own1) @ gs, s @ t1)" by simp
    show "exec_stmts (realise_all (p # ps) :: (event list, 'r, 'e) stmt list) gs s =
           (case outcomes (p # ps) of (c, own, t) \<Rightarrow> (c, map (\<lambda>i. Defer_ctor (fire i)) (rev own) @ gs, s @ t))"
    proof (cases c1)
      case Normal
      obtain c2 own2 t2 where o2: "outcomes ps = (c2, own2, t2)" by (cases "outcomes ps") auto
      from "6.IH"(2) [of c1 "(own1, t1)" own1 t1] o1 Normal o2
      have "exec_stmts (realise_all ps :: (event list, 'r, 'e) stmt list)
              (map (\<lambda>i. Defer_ctor (fire i)) (rev own1) @ gs) (s @ t1)
            = (c2, map (\<lambda>i. Defer_ctor (fire i)) (rev own2) @ map (\<lambda>i. Defer_ctor (fire i)) (rev own1) @ gs, (s @ t1) @ t2)"
        by simp
      with e1 o1 o2 Normal show ?thesis by (simp add: split exec_stmts_append)
    qed (use e1 o1 in \<open>simp_all add: split exec_stmts_append\<close>)
  qed
qed

lemma exec_block_outcome:
  fixes body :: "'e scenario list"
  assumes "outcomes body = (c, own, t)"
  shows "exec_stmts (realise_all body :: (event list, 'r, 'e) stmt list) [] s
           = (c, map (\<lambda>i. Defer_ctor (fire i)) (rev own), s @ t)"
    and "exec_block (realise_all body :: (event list, 'r, 'e) stmt list) s
           = (c, s @ t @ map Fired (rev own))"
    and "c \<noteq> Terminated"
proof -
  from assms outcome_not_Terminated(2) [of body] show c: "c \<noteq> Terminated" by simp
  have "\<forall>gs s. exec_stmts (realise_all body :: (event list, 'r, 'e) stmt list) gs s =
           (case outcomes body of (c, own, t) \<Rightarrow>
              (c, map (\<lambda>i. Defer_ctor (fire i)) (rev own) @ gs, s @ t))"
    by (rule exec_outcome(2))
  with assms show stmts: "exec_stmts (realise_all body :: (event list, 'r, 'e) stmt list) [] s
        = (c, map (\<lambda>i. Defer_ctor (fire i)) (rev own), s @ t)" by simp
  with c show "exec_block (realise_all body :: (event list, 'r, 'e) stmt list) s
        = (c, s @ t @ map Fired (rev own))"
    by (cases c) (simp_all add: leave_scope_def unwind_fire)
qed

section \<open>Guards of inner blocks fire before the guards of the enclosing block\<close>

lemma fired_append: "fired (t1 @ t2) = fired t1 @ fired t2"
  by (induction t1 rule: fired.induct) simp_all

lemma fired_map_Fired: "fired (map Fired js) = js"
  by (induction js) simp_all

lemma Fired_in_set: "Fired i \<in> set t \<longleftrightarrow> i \<in> set (fired t)"
  by (induction t rule: fired.induct) auto

lemma own_inner_ids:
  "set (own_id p) \<union> set (inner_id p) \<subseteq> set (ids_of p)"
  by (cases p) simp_all

lemma own_inner_ids_list:
  "set (own_ids ps) \<union> set (inner_ids ps) \<subseteq> set (concat (map ids_of ps))"
  using own_inner_ids by (fastforce simp add: own_ids_def inner_ids_def)

lemma outcome_order:
  fixes p :: "'e scenario" and ps :: "'e scenario list"
  shows "case outcome p of (c, own, t) \<Rightarrow>
           set (fired t) \<subseteq> set (inner_id p) \<and> (c = Normal \<longrightarrow> own = own_id p)
           \<and> (\<exists>rest. own_id p = own @ rest)"
    and "case outcomes ps of (c, own, t) \<Rightarrow>
           set (fired t) \<subseteq> set (inner_ids ps) \<and> (c = Normal \<longrightarrow> own = own_ids ps)
           \<and> (\<exists>rest. own_ids ps = own @ rest)"
proof (induction p and ps rule: outcome_outcomes.induct)
  case (1 i)
  show ?case by simp
next
  case (2 ps)
  obtain c own t where o: "outcomes ps = (c, own, t)" by (cases "outcomes ps") auto
  with 2 have f: "set (fired t) \<subseteq> set (inner_ids ps)" and "\<exists>rest. own_ids ps = own @ rest"
    by simp_all
  then have "set own \<subseteq> set (own_ids ps)" by auto
  with f own_inner_ids_list [of ps] have "set (fired t) \<union> set own \<subseteq> set (concat (map ids_of ps))"
    by blast
  with o show ?case by (simp add: fired_append fired_map_Fired)
next
  case 3
  show ?case by simp
next
  case (4 e)
  show ?case by simp
next
  case 5
  show ?case by (simp add: own_ids_def)
next
  case (6 p ps)
  obtain c1 own1 t1 where o1: "outcome p = (c1, own1, t1)" by (cases "outcome p") auto
  with "6.IH"(1) have f1: "set (fired t1) \<subseteq> set (inner_id p)"
    and n1: "c1 = Normal \<longrightarrow> own1 = own_id p"
    and r1: "\<exists>rest. own_id p = own1 @ rest" by simp_all
  have ids: "own_ids (p # ps) = own_id p @ own_ids ps" "inner_ids (p # ps) = inner_id p @ inner_ids ps"
    by (simp_all add: own_ids_def inner_ids_def)
  show ?case
  proof (cases c1)
    case Normal
    obtain c2 own2 t2 where o2: "outcomes ps = (c2, own2, t2)" by (cases "outcomes ps") auto
    with "6.IH"(2) [of c1 "(own1, t1)" own1 t1] o1 Normal
    have f2: "set (fired t2) \<subseteq> set (inner_ids ps)"
      and n2: "c2 = Normal \<longrightarrow> own2 = own_ids ps"
      and r2: "\<exists>rest. own_ids ps = own2 @ rest" by simp_all
    from r2 obtain rest where "own_ids ps = own2 @ rest" by blast
    with n1 Normal have "own_ids (p # ps) = (own1 @ own2) @ rest" by (simp add: ids)
    then have "\<exists>rest. own_ids (p # ps) = (own1 @ own2) @ rest" by blast
    with o1 o2 Normal f1 f2 n1 n2 show ?thesis
      by (auto simp add: ids fired_append)
  next
    case Returned
    from r1 obtain rest where "own_id p = own1 @ rest" by blast
    then have "\<exists>rest. own_ids (p # ps) = own1 @ rest" by (simp add: ids)
    with o1 Returned f1 show ?thesis by (auto simp add: ids)
  next
    case (Raised e)
    from r1 obtain rest where "own_id p = own1 @ rest" by blast
    then have "\<exists>rest. own_ids (p # ps) = own1 @ rest" by (simp add: ids)
    with o1 Raised f1 show ?thesis by (auto simp add: ids)
  next
    case Terminated
    with o1 outcome_not_Terminated(1) [of p] show ?thesis by simp
  qed
qed

text \<open>
  C4. A guard declared in an inner block, at any nesting depth, has completed its action
  before any guard of an enclosing block begins its own. For every block: the log it leaves
  is \<open>t\<close> followed by the firing of the block's own constructed guards, latest first, and
  every guard that fires within \<open>t\<close> is a guard of one of its nested blocks. The own
  guards that fire are those declared before the block was left (all of them when it was
  left normally). When no identifier is used both for an own and for a nested guard, this
  reads: no own guard fires within \<open>t\<close>, and no nested guard fires after it. This holds
  however the block and its nested blocks are left.
\<close>

theorem inner_guards_fire_first:
  fixes body :: "'e scenario list"
  shows "\<exists>c t own. exec_block (realise_all body :: (event list, 'r, 'e) stmt list) s
             = (c, s @ t @ map Fired (rev own))
           \<and> c \<noteq> Terminated
           \<and> set (fired t) \<subseteq> set (inner_ids body)
           \<and> (\<exists>rest. own_ids body = own @ rest)
           \<and> (c = Normal \<longrightarrow> own = own_ids body)
           \<and> (set (own_ids body) \<inter> set (inner_ids body) = {} \<longrightarrow>
                (\<forall>i\<in>set (own_ids body). Fired i \<notin> set t)
                \<and> (\<forall>j\<in>set (inner_ids body). Fired j \<notin> set (map Fired (rev own))))"
proof -
  obtain c own t where o: "outcomes body = (c, own, t)" by (cases "outcomes body") auto
  from outcome_order(2) [of body] o
  have f: "set (fired t) \<subseteq> set (inner_ids body)" and r: "\<exists>rest. own_ids body = own @ rest"
    and n: "c = Normal \<longrightarrow> own = own_ids body" by simp_all
  from r have sub: "set own \<subseteq> set (own_ids body)" by auto
  have "set (own_ids body) \<inter> set (inner_ids body) = {} \<longrightarrow>
          (\<forall>i\<in>set (own_ids body). Fired i \<notin> set t)
          \<and> (\<forall>j\<in>set (inner_ids body). Fired j \<notin> set (map Fired (rev own)))"
    using f sub by (auto simp add: Fired_in_set)
  with exec_block_outcome(2,3) [OF o] f r n show ?thesis by blast
qed

theorem inner_guards_fire_first_witness:
  "exec_block (realise_all [Guard 1, Nest [Guard 2, Nest [Guard 3]], Guard 4 :: unit scenario]
       :: (event list, unit, unit) stmt list) []
     = (Normal, [] @ [Constructed 1, Constructed 2, Constructed 3, Fired 3, Fired 2, Constructed 4]
                   @ map Fired (rev [1, 4]))
   \<and> fired [Constructed 1, Constructed 2, Constructed 3, Fired 3, Fired 2, Constructed 4] = [3, 2]
   \<and> inner_ids [Guard 1, Nest [Guard 2, Nest [Guard 3]], Guard 4 :: unit scenario] = [2, 3]
   \<and> own_ids [Guard 1, Nest [Guard 2, Nest [Guard 3]], Guard 4 :: unit scenario] = [1, 4]
   \<and> set (own_ids [Guard 1, Nest [Guard 2, Nest [Guard 3]], Guard 4 :: unit scenario])
       \<inter> set (inner_ids [Guard 1, Nest [Guard 2, Nest [Guard 3]], Guard 4 :: unit scenario]) = {}
   \<and> Fired 1 \<notin> set [Constructed 1, Constructed 2, Constructed 3, Fired 3, Fired 2, Constructed 4]
   \<and> Fired 4 \<notin> set [Constructed 1, Constructed 2, Constructed 3, Fired 3, Fired 2, Constructed 4]
   \<and> Fired 2 \<notin> set (map Fired (rev [1, 4]))
   \<and> Fired 3 \<notin> set (map Fired (rev [1, 4]))"
  using inner_guards_fire_first [where body = "[Guard 1, Nest [Guard 2, Nest [Guard 3]], Guard 4 :: unit scenario]"
      and s = "[]" and ?'r = unit]
  by (simp add: realise_all_def record_event_def fire_def leave_scope_def Defer_dtor_def
      Defer_ctor_def inner_ids_def own_ids_def)

section \<open>The life of a guard\<close>

lemma life_append: "life i (t1 @ t2) = life i t1 @ life i t2"
  by (simp add: life_def)

lemma life_map_Fired:
  "distinct js \<Longrightarrow> life i (map Fired js) = (if i \<in> set js then [Fired i] else [])"
  by (induction js) (auto simp add: life_def)

lemma tidy_append:
  assumes "tidy ids1 own1 t1" and "tidy ids2 own2 t2" and "set ids1 \<inter> set ids2 = {}"
  shows "tidy (ids1 @ ids2) (own1 @ own2) (t1 @ t2)"
  unfolding tidy_def
proof (intro conjI allI)
  show "set (own1 @ own2) \<subseteq> set (ids1 @ ids2)" using assms(1,2) by (auto simp add: tidy_def)
  show "distinct (own1 @ own2)" using assms by (auto simp add: tidy_def)
next
  fix i
  have d: "i \<notin> set ids1 \<or> i \<notin> set ids2" using assms(3) by auto
  show "i \<in> set (own1 @ own2) \<longrightarrow> life i (t1 @ t2) = [Constructed i]"
    using assms(1,2) d unfolding tidy_def life_append
    by (metis Un_iff append_Nil append_Nil2 set_append subsetD)
  show "i \<notin> set (own1 @ own2) \<longrightarrow>
        life i (t1 @ t2) = [] \<or> life i (t1 @ t2) = [Constructed i, Fired i]"
    using assms(1,2) d unfolding tidy_def life_append
    by (metis Un_iff append_Nil append_Nil2 set_append)
  show "i \<notin> set (ids1 @ ids2) \<longrightarrow> life i (t1 @ t2) = []"
    using assms(1,2) unfolding tidy_def life_append by simp
qed

lemma tidy_close:
  assumes "tidy ids own t"
  shows "tidy ids [] (t @ map Fired (rev own))"
  unfolding tidy_def
proof (intro conjI allI)
  show "set [] \<subseteq> set ids" by simp
  show "distinct ([] :: nat list)" by simp
next
  fix i
  from assms have f: "life i (map Fired (rev own)) = (if i \<in> set own then [Fired i] else [])"
    by (simp add: tidy_def life_map_Fired)
  show "i \<in> set [] \<longrightarrow> life i (t @ map Fired (rev own)) = [Constructed i]" by simp
  show "i \<notin> set [] \<longrightarrow> life i (t @ map Fired (rev own)) = []
          \<or> life i (t @ map Fired (rev own)) = [Constructed i, Fired i]"
    using assms f unfolding tidy_def life_append by (cases "i \<in> set own") auto
  show "i \<notin> set ids \<longrightarrow> life i (t @ map Fired (rev own)) = []"
    using assms f unfolding tidy_def life_append by (cases "i \<in> set own") auto
qed

lemma tidy_mono:
  "tidy ids own t \<Longrightarrow> set ids \<subseteq> set ids' \<Longrightarrow> tidy ids' own t"
  unfolding tidy_def by blast

lemma outcome_tidy:
  fixes p :: "'e scenario" and ps :: "'e scenario list"
  shows "distinct (ids_of p) \<longrightarrow> (case outcome p of (c, own, t) \<Rightarrow> tidy (ids_of p) own t)"
    and "distinct (concat (map ids_of ps)) \<longrightarrow>
           (case outcomes ps of (c, own, t) \<Rightarrow> tidy (concat (map ids_of ps)) own t)"
proof (induction p and ps rule: outcome_outcomes.induct)
  case (1 i)
  show ?case by (simp add: tidy_def life_def)
next
  case (2 ps)
  show ?case
  proof
    assume d: "distinct (ids_of (Nest ps))"
    obtain c own t where o: "outcomes ps = (c, own, t)" by (cases "outcomes ps") auto
    with 2 d have "tidy (concat (map ids_of ps)) own t" by simp
    from tidy_close [OF this] o
    show "case outcome (Nest ps) of (c, own, t) \<Rightarrow> tidy (ids_of (Nest ps)) own t" by simp
  qed
next
  case 3
  show ?case by (simp add: tidy_def life_def)
next
  case (4 e)
  show ?case by (simp add: tidy_def life_def)
next
  case 5
  show ?case by (simp add: tidy_def life_def)
next
  case (6 p ps)
  show ?case
  proof
    assume d: "distinct (concat (map ids_of (p # ps)))"
    then have d1: "distinct (ids_of p)" and d2: "distinct (concat (map ids_of ps))"
      and dj: "set (ids_of p) \<inter> set (concat (map ids_of ps)) = {}" by auto
    obtain c1 own1 t1 where o1: "outcome p = (c1, own1, t1)" by (cases "outcome p") auto
    with "6.IH"(1) d1 have t1: "tidy (ids_of p) own1 t1" by simp
    show "case outcomes (p # ps) of (c, own, t) \<Rightarrow> tidy (concat (map ids_of (p # ps))) own t"
    proof (cases c1)
      case Normal
      obtain c2 own2 t2 where o2: "outcomes ps = (c2, own2, t2)" by (cases "outcomes ps") auto
      with "6.IH"(2) [of c1 "(own1, t1)" own1 t1] o1 Normal d2
      have "tidy (concat (map ids_of ps)) own2 t2" by simp
      from tidy_append [OF t1 this dj] o1 o2 Normal show ?thesis by simp
    qed (use o1 tidy_mono [OF t1, of "concat (map ids_of (p # ps))"] in simp_all)
  qed
qed

text \<open>
  C2. A guard has two states: Armed, from its construction until the block is left, and
  Fired. With one identifier per guard, the history of guard \<open>i\<close> in the log is
  \<open>[Constructed i]\<close> while it is Armed and \<open>[Constructed i, Fired i]\<close> once it has
  Fired. When the statements of a block are done, each of its own constructed guards is
  still Armed. When the block has been left, each of them has Fired, and the history of
  every guard of the program, own or nested, is either empty (its declaration was never
  reached) or \<open>[Constructed i, Fired i]\<close>: the action ran once, after the construction,
  and nothing else ever happened to the guard.
\<close>

theorem guard_lifecycle:
  fixes body :: "'e scenario list"
  assumes "distinct (concat (map ids_of body))"
  shows "\<exists>c own t.
           exec_stmts (realise_all body :: (event list, 'r, 'e) stmt list) [] s
             = (c, map (\<lambda>i. Defer_ctor (fire i)) (rev own), s @ t)
           \<and> (\<forall>i\<in>set own. life i t = [Constructed i])
           \<and> exec_block (realise_all body :: (event list, 'r, 'e) stmt list) s
             = (c, s @ t @ map Fired (rev own))
           \<and> c \<noteq> Terminated
           \<and> (\<forall>i\<in>set own. life i (t @ map Fired (rev own)) = [Constructed i, Fired i])
           \<and> (\<forall>i. life i (t @ map Fired (rev own)) = []
                  \<or> life i (t @ map Fired (rev own)) = [Constructed i, Fired i])"
proof -
  obtain c own t where o: "outcomes body = (c, own, t)" by (cases "outcomes body") auto
  with outcome_tidy(2) [of body] assms have t: "tidy (concat (map ids_of body)) own t" by simp
  then have armed: "\<forall>i\<in>set own. life i t = [Constructed i]" by (simp add: tidy_def)
  from t have "distinct own" by (simp add: tidy_def)
  with armed have fin: "\<forall>i\<in>set own. life i (t @ map Fired (rev own)) = [Constructed i, Fired i]"
    by (simp add: life_append life_map_Fired)
  from tidy_close [OF t]
  have "\<forall>i. life i (t @ map Fired (rev own)) = []
          \<or> life i (t @ map Fired (rev own)) = [Constructed i, Fired i]"
    by (simp add: tidy_def)
  with exec_block_outcome [OF o] armed fin show ?thesis by blast
qed

theorem guard_lifecycle_witness:
  "distinct (concat (map ids_of [Guard 1, Nest [Guard 2, Leave, Guard 3], Guard 4 :: unit scenario]))
   \<and> exec_stmts (realise_all [Guard 1, Nest [Guard 2, Leave, Guard 3], Guard 4 :: unit scenario]
         :: (event list, unit, unit) stmt list) [] []
       = (Returned, [Defer_ctor (fire 1)], [Constructed 1, Constructed 2, Fired 2])
   \<and> life 1 [Constructed 1, Constructed 2, Fired 2] = [Constructed 1]
   \<and> exec_block (realise_all [Guard 1, Nest [Guard 2, Leave, Guard 3], Guard 4 :: unit scenario]
         :: (event list, unit, unit) stmt list) []
       = (Returned, [Constructed 1, Constructed 2, Fired 2, Fired 1])
   \<and> life 1 [Constructed 1, Constructed 2, Fired 2, Fired 1] = [Constructed 1, Fired 1]
   \<and> life 2 [Constructed 1, Constructed 2, Fired 2, Fired 1] = [Constructed 2, Fired 2]
   \<and> life 3 [Constructed 1, Constructed 2, Fired 2, Fired 1] = []"
  using guard_lifecycle [where body = "[Guard 1, Nest [Guard 2, Leave, Guard 3], Guard 4 :: unit scenario]"
      and s = "[]" and ?'r = unit]
  by (simp add: realise_all_def record_event_def fire_def leave_scope_def Defer_dtor_def
      Defer_ctor_def life_def)

end
